theory Spec2Isabelle
  imports Main "HOL-Library.Sublist"
begin

section \<open>Data model\<close>

text \<open>
  The dispatch core of \<^verbatim>\<open>src/server.ts\<close>. JavaScript exceptions are values: every
  method that can throw returns a \<open>result\<close>, which carries the state of the object it
  acted on in both outcomes, so that what a failed call leaves behind can be stated.
\<close>

datatype error = Error string

datatype 'a result = Done 'a | Threw error 'a

text \<open>The TypeScript type \<^verbatim>\<open>unknown\<close> of bodies, as far as the dispatcher builds values of it.\<close>

datatype jsvalue =
    Undefined
  | JNum int
  | JStr string
  | JObj "(string \<times> jsvalue) list"

datatype HttpMethod = GET | POST | PUT | PATCH | DELETE | HEAD | OPTIONS | TRACE | CONNECT

section \<open>Response builder (\<^verbatim>\<open>Server.createResponse\<close>)\<close>

text \<open>
  The five variables the closure of \<^verbatim>\<open>createResponse\<close> captures. \<open>status\<close> is
  \<^verbatim>\<open>number | undefined\<close>: \<open>None\<close> until it is set.
\<close>

record response =
  status :: "int option"
  headers :: "string \<rightharpoonup> string"
  body :: jsvalue
  sent :: bool
  finished :: bool

definition createResponse :: response where
  "createResponse =
     \<lparr>status = None, headers = Map.empty, body = Undefined, sent = False, finished = False\<rparr>"

text \<open>The getter \<^verbatim>\<open>get status()\<close>: \<^verbatim>\<open>status ?? 200\<close>.\<close>

definition get_status :: "response \<Rightarrow> int" where
  "get_status r = (case status r of None \<Rightarrow> 200 | Some c \<Rightarrow> c)"

definition setStatus :: "int \<Rightarrow> response \<Rightarrow> response result" where
  "setStatus code r =
     (if sent r then Threw (Error ''Cannot set status after response has been sent'') r
      else Done (r\<lparr>status := Some code\<rparr>))"

definition setHeader :: "string \<Rightarrow> string \<Rightarrow> response \<Rightarrow> response result" where
  "setHeader name value r =
     (if sent r then Threw (Error ''Cannot set headers after response has been sent'') r
      else Done (r\<lparr>headers := (headers r)(name \<mapsto> value)\<rparr>))"

definition send :: "jsvalue \<Rightarrow> response \<Rightarrow> response result" where
  "send data r =
     (if sent r then Threw (Error ''Response has already been sent'') r
      else Done (r\<lparr>status := (if status r = None then Some 200 else status r),
                    body := data, sent := True, finished := True\<rparr>))"

definition json :: "jsvalue \<Rightarrow> response \<Rightarrow> response result" where
  "json data r =
     (case setHeader ''content-type'' ''application/json'' r of
        Threw e r' \<Rightarrow> Threw e r'
      | Done r' \<Rightarrow> send data r')"

text \<open>\<^verbatim>\<open>Server.createErrorResponse\<close>: a fresh response, \<^verbatim>\<open>setStatus\<close>, then \<^verbatim>\<open>json({ error: message })\<close>.\<close>

definition createErrorResponse :: "int \<Rightarrow> string \<Rightarrow> response result" where
  "createErrorResponse st message =
     (let response = createResponse in
      case setStatus st response of
        Threw e r \<Rightarrow> Threw e r
      | Done r1 \<Rightarrow> json (JObj [(''error'', JStr message)]) r1)"

text \<open>
  A caller's sequence of method calls on one response object. A call that throws leaves
  the object as it was when the exception was raised; the caller may go on using it.
\<close>

datatype call =
    CallSetStatus int
  | CallSetHeader string string
  | CallSend jsvalue
  | CallJson jsvalue

fun invoke :: "call \<Rightarrow> response \<Rightarrow> response result" where
  "invoke (CallSetStatus c) r = setStatus c r"
| "invoke (CallSetHeader n v) r = setHeader n v r"
| "invoke (CallSend d) r = send d r"
| "invoke (CallJson d) r = json d r"

fun object_after :: "response result \<Rightarrow> response" where
  "object_after (Done r) = r"
| "object_after (Threw e r) = r"

fun after_calls :: "response \<Rightarrow> call list \<Rightarrow> response" where
  "after_calls r [] = r"
| "after_calls r (c # cs) = after_calls (object_after (invoke c r)) cs"

fun is_setStatus :: "call \<Rightarrow> bool" where
  "is_setStatus (CallSetStatus c) = True"
| "is_setStatus _ = False"

section \<open>Requests, hooks, middleware and routes\<close>

text \<open>The fields of \<^verbatim>\<open>IRequest\<close> that the dispatcher or a hook can read.\<close>

record request =
  "method" :: HttpMethod
  path :: string
  req_headers :: "string \<rightharpoonup> string"
  query :: "string \<rightharpoonup> string"
  params :: "string \<rightharpoonup> string"
  req_body :: jsvalue
  protocol :: string

text \<open>What the getters of a response show to its holder: status (defaulted), headers, body, sent, finished.\<close>

type_synonym reading = "int \<times> (string \<rightharpoonup> string) \<times> jsvalue \<times> bool \<times> bool"

definition getters :: "response \<Rightarrow> reading" where
  "getters r = (get_status r, headers r, body r, sent r, finished r)"

text \<open>
  Hooks and handlers are the caller's code, an input of the dispatcher. A \<open>script\<close> is
  what such a function does with the two things it is handed, the response and the
  continuation: it writes to the response, reads it and branches, awaits the continuation,
  throws, catches, and returns. Every script is sequential and completes (by returning or
  by throwing). A hook whose promise never settles is treated further down (hooks that
  need not settle). A hook that calls the continuation without awaiting it runs
  concurrently with the chain it has started; that is outside this model.
\<close>

datatype script =
    Return
  | Throw error
  | SetStatus int script
  | SetHeader string string script
  | Send jsvalue script
  | Json jsvalue script
  | Next script
  | Observe "reading \<Rightarrow> script"
  | Try script "error \<Rightarrow> script" script

text \<open>
  \<^verbatim>\<open>IMiddleware\<close>: three optional hooks. \<open>name\<close> is not a field of the source: it stands
  for the identity of the object, so that a trace of hook invocations can name it.
\<close>

record middleware =
  name :: string
  before :: "(request \<Rightarrow> script) option"
  after :: "(request \<Rightarrow> script) option"
  onError :: "(error \<Rightarrow> request \<Rightarrow> script) option"

text \<open>\<^verbatim>\<open>IRoute\<close>, without its description and tags; \<open>middlewares\<close> is optional.\<close>

record route =
  "method" :: HttpMethod
  path :: string
  handler :: "request \<Rightarrow> script"
  middlewares :: "middleware list option"

text \<open>The dispatcher's fields; the engine is a collaborator and appears only as the outcome of its \<^verbatim>\<open>listen\<close>.\<close>

record server =
  globalMiddlewares :: "middleware list"
  routes :: "route list"
  isRunning :: bool

text \<open>Each invocation of a hook or handler by the dispatcher is recorded (ghost state).\<close>

datatype event = EvBefore string | EvAfter string | EvOnError string | EvHandler

record hstate =
  resp :: response
  trace :: "event list"

text \<open>The chain adds the cursor \<^verbatim>\<open>index\<close> that the closure \<^verbatim>\<open>next\<close> shares.\<close>

record cstate = hstate +
  index :: nat

text \<open>\<open>None\<close>: the fuel of the chain ran out (see \<open>next_fuel_enough\<close>: it never does).\<close>

type_synonym 's outcome = "'s result option"

text \<open>The run completed, by returning or by throwing, in a state that satisfies \<open>P\<close>.\<close>

fun completes_in :: "('s \<Rightarrow> bool) \<Rightarrow> 's outcome \<Rightarrow> bool" where
  "completes_in P None = False"
| "completes_in P (Some (Done s)) = P s"
| "completes_in P (Some (Threw e s)) = P s"

section \<open>Running a hook\<close>

primrec exec :: "('a hstate_scheme \<Rightarrow> 'a hstate_scheme outcome) \<Rightarrow> script
    \<Rightarrow> 'a hstate_scheme \<Rightarrow> 'a hstate_scheme outcome" where
  "exec nxt Return = (\<lambda>s. Some (Done s))"
| "exec nxt (Throw e) = (\<lambda>s. Some (Threw e s))"
| "exec nxt (SetStatus c k) = (\<lambda>s.
     case setStatus c (resp s) of
       Threw e r \<Rightarrow> Some (Threw e (s\<lparr>resp := r\<rparr>))
     | Done r \<Rightarrow> exec nxt k (s\<lparr>resp := r\<rparr>))"
| "exec nxt (SetHeader n v k) = (\<lambda>s.
     case setHeader n v (resp s) of
       Threw e r \<Rightarrow> Some (Threw e (s\<lparr>resp := r\<rparr>))
     | Done r \<Rightarrow> exec nxt k (s\<lparr>resp := r\<rparr>))"
| "exec nxt (Send d k) = (\<lambda>s.
     case send d (resp s) of
       Threw e r \<Rightarrow> Some (Threw e (s\<lparr>resp := r\<rparr>))
     | Done r \<Rightarrow> exec nxt k (s\<lparr>resp := r\<rparr>))"
| "exec nxt (Json d k) = (\<lambda>s.
     case json d (resp s) of
       Threw e r \<Rightarrow> Some (Threw e (s\<lparr>resp := r\<rparr>))
     | Done r \<Rightarrow> exec nxt k (s\<lparr>resp := r\<rparr>))"
| "exec nxt (Next k) = (\<lambda>s.
     case nxt s of
       None \<Rightarrow> None
     | Some (Threw e s') \<Rightarrow> Some (Threw e s')
     | Some (Done s') \<Rightarrow> exec nxt k s')"
| "exec nxt (Observe g) = (\<lambda>s. exec nxt (g (getters (resp s))) s)"
| "exec nxt (Try a h k) = (\<lambda>s.
     case exec nxt a s of
       None \<Rightarrow> None
     | Some (Done s') \<Rightarrow> exec nxt k s'
     | Some (Threw e s') \<Rightarrow>
         (case exec nxt (h e) s' of
            None \<Rightarrow> None
          | Some (Threw e' s'') \<Rightarrow> Some (Threw e' s'')
          | Some (Done s'') \<Rightarrow> exec nxt k s''))"

text \<open>
  The continuation \<^verbatim>\<open>() => Promise.resolve()\<close> of \<^verbatim>\<open>handleError\<close>. A route handler is
  called with request and response only, so its script runs with this continuation too.
\<close>

definition noop :: "'a hstate_scheme \<Rightarrow> 'a hstate_scheme outcome" where
  "noop s = Some (Done s)"

section \<open>Dispatcher (\<^verbatim>\<open>Server\<close>)\<close>

definition use :: "server \<Rightarrow> middleware \<Rightarrow> server result" where
  "use srv m = Done (srv\<lparr>globalMiddlewares := globalMiddlewares srv @ [m]\<rparr>)"

text \<open>\<^verbatim>\<open>RouteGroup\<close>, as far as \<^verbatim>\<open>getPrefixedRoutes\<close> reads it.\<close>

record routeGroup =
  prefix :: string
  group_routes :: "route list"
  group_middlewares :: "middleware list"

definition getPrefixedRoutes :: "routeGroup \<Rightarrow> route list" where
  "getPrefixedRoutes g =
     map (\<lambda>r. r\<lparr>path := prefix g @ route.path r,
                 middlewares := Some (group_middlewares g
                   @ (case middlewares r of None \<Rightarrow> [] | Some ms \<Rightarrow> ms))\<rparr>)
       (group_routes g)"

datatype routeInput = Single route | Many "route list" | Group routeGroup

definition empty_path_to_root :: "route \<Rightarrow> route" where
  "empty_path_to_root r = (if route.path r = '''' then r\<lparr>path := ''/''\<rparr> else r)"

definition route :: "server \<Rightarrow> routeInput \<Rightarrow> server result" where
  "route srv routeInput =
     (if isRunning srv then Threw (Error ''Cannot add routes after server has started'') srv
      else case routeInput of
        Group g \<Rightarrow> Done (srv\<lparr>routes := routes srv @ getPrefixedRoutes g\<rparr>)
      | Many rs \<Rightarrow> Done (srv\<lparr>routes := routes srv @ map empty_path_to_root rs\<rparr>)
      | Single r \<Rightarrow> Done (srv\<lparr>routes := routes srv @ [empty_path_to_root r]\<rparr>))"

text \<open>\<^verbatim>\<open>start\<close>; \<open>listen\<close> is how the engine's \<^verbatim>\<open>listen\<close> settles: \<open>None\<close> resolved, \<open>Some e\<close> rejected with \<open>e\<close>.\<close>

definition start :: "server \<Rightarrow> error option \<Rightarrow> server result" where
  "start srv listen =
     (if isRunning srv then Threw (Error ''Server is already running'') srv
      else
        let srv1 = srv\<lparr>isRunning := True\<rparr>
        in case listen of
             None \<Rightarrow> Done srv1
           | Some e \<Rightarrow> Threw e (srv1\<lparr>isRunning := False\<rparr>))"

definition pathMatches :: "string \<Rightarrow> string \<Rightarrow> bool" where
  "pathMatches routePath requestPath = (routePath = requestPath)"

definition findRoute :: "server \<Rightarrow> HttpMethod \<Rightarrow> string \<Rightarrow> route option" where
  "findRoute srv m p =
     List.find (\<lambda>r. route.method r = m \<and> pathMatches (route.path r) p) (routes srv)"

text \<open>
  The \<^verbatim>\<open>try\<close>/\<^verbatim>\<open>catch\<close> block of the closure \<^verbatim>\<open>next\<close>, for the middleware it has
  taken from the list: \<open>before\<close> with the continuation, or the continuation at once;
  an error of either goes to this middleware's \<open>onError\<close>, or on to the caller.
\<close>

definition run_middleware :: "middleware \<Rightarrow> (cstate \<Rightarrow> cstate outcome) \<Rightarrow> request
    \<Rightarrow> cstate \<Rightarrow> cstate outcome" where
  "run_middleware m nxt req s =
     (case (case before m of
              Some b \<Rightarrow> exec nxt (b req) (s\<lparr>trace := trace s @ [EvBefore (name m)]\<rparr>)
            | None \<Rightarrow> nxt s) of
        None \<Rightarrow> None
      | Some (Done s2) \<Rightarrow> Some (Done s2)
      | Some (Threw e s2) \<Rightarrow>
          (case onError m of
             Some oe \<Rightarrow> exec nxt (oe e req) (s2\<lparr>trace := trace s2 @ [EvOnError (name m)]\<rparr>)
           | None \<Rightarrow> Some (Threw e s2)))"

text \<open>
  The closure \<^verbatim>\<open>next\<close> of \<^verbatim>\<open>executeMiddlewareChain\<close>. It calls itself through the hooks it
  hands itself to, so the recursion is on a fuel argument: each call either runs the
  handler or moves the cursor one step on before any nested call.
\<close>

primrec next_step :: "middleware list \<Rightarrow> (request \<Rightarrow> script) \<Rightarrow> request \<Rightarrow> nat
    \<Rightarrow> cstate \<Rightarrow> cstate outcome" where
  "next_step allMiddlewares h req 0 = (\<lambda>s. None)"
| "next_step allMiddlewares h req (Suc fuel) = (\<lambda>s.
     if index s \<ge> length allMiddlewares
     then exec noop (h req) (s\<lparr>trace := trace s @ [EvHandler]\<rparr>)
     else run_middleware (allMiddlewares ! index s) (next_step allMiddlewares h req fuel) req
            (s\<lparr>index := index s + 1\<rparr>))"

definition executeMiddlewareChain :: "server \<Rightarrow> route \<Rightarrow> request \<Rightarrow> cstate outcome" where
  "executeMiddlewareChain srv rt req =
     (let allMiddlewares = globalMiddlewares srv
            @ (case middlewares rt of None \<Rightarrow> [] | Some ms \<Rightarrow> ms);
          response = createResponse
      in next_step allMiddlewares (handler rt) req (Suc (length allMiddlewares))
           \<lparr>resp = response, trace = [], index = 0\<rparr>)"

text \<open>The loop of \<^verbatim>\<open>handleError\<close> over the global middleware, and its fallback.\<close>

fun handleError_from :: "middleware list \<Rightarrow> error \<Rightarrow> request \<Rightarrow> event list \<Rightarrow> hstate outcome" where
  "handleError_from [] e req tr =
     (case createErrorResponse 500 ''Internal Server Error'' of
        Done r \<Rightarrow> Some (Done \<lparr>resp = r, trace = tr\<rparr>)
      | Threw e' r \<Rightarrow> Some (Threw e' \<lparr>resp = r, trace = tr\<rparr>))"
| "handleError_from (m # ms) e req tr =
     (case onError m of
        None \<Rightarrow> handleError_from ms e req tr
      | Some oe \<Rightarrow>
          (case exec noop (oe e req) \<lparr>resp = createResponse, trace = tr @ [EvOnError (name m)]\<rparr> of
             None \<Rightarrow> None
           | Some (Done s) \<Rightarrow> Some (Done s)
           | Some (Threw e' s) \<Rightarrow> handleError_from ms e req (trace s)))"

definition handleError :: "server \<Rightarrow> error \<Rightarrow> request \<Rightarrow> event list \<Rightarrow> hstate outcome" where
  "handleError srv e req tr = handleError_from (globalMiddlewares srv) e req tr"

text \<open>
  \<^verbatim>\<open>processRequest\<close>: \<open>Some (Done s)\<close> is a promise resolved with the response \<open>resp s\<close>,
  \<open>Some (Threw e s)\<close> a promise rejected with \<open>e\<close>.
\<close>

definition processRequest :: "server \<Rightarrow> request \<Rightarrow> hstate outcome" where
  "processRequest srv req =
     (case (case findRoute srv (request.method req) (request.path req) of
              None \<Rightarrow>
                (case createErrorResponse 404 ''Not Found'' of
                   Done r \<Rightarrow> Some (Done \<lparr>resp = r, trace = []\<rparr>)
                 | Threw e r \<Rightarrow> Some (Threw e \<lparr>resp = r, trace = []\<rparr>))
            | Some rt \<Rightarrow>
                (case executeMiddlewareChain srv rt req of
                   None \<Rightarrow> None
                 | Some (Done s) \<Rightarrow> Some (Done \<lparr>resp = resp s, trace = trace s\<rparr>)
                 | Some (Threw e s) \<Rightarrow> Some (Threw e \<lparr>resp = resp s, trace = trace s\<rparr>))) of
        None \<Rightarrow> None
      | Some (Done s) \<Rightarrow> Some (Done s)
      | Some (Threw e s) \<Rightarrow> handleError srv e req (trace s))"

section \<open>The course of a hook\<close>

text \<open>
  What a hook does, seen from outside: it settles (returns or throws) without calling its
  continuation, or it calls the continuation on the response as it has written it so far,
  and what follows depends on how that call ends. \<open>course_of p r\<close> is the course of the
  script \<open>p\<close> started on the response \<open>r\<close>; \<open>exec_follow\<close> shows that running the script
  is following its course.
\<close>

datatype course = Settles "response result" | Calls response "response result \<Rightarrow> course"





text \<open>Following a course with the continuation \<open>f\<close>.\<close>

primrec follow :: "('a hstate_scheme \<Rightarrow> 'a hstate_scheme outcome) \<Rightarrow> course
    \<Rightarrow> 'a hstate_scheme \<Rightarrow> 'a hstate_scheme outcome" where
  "follow f (Settles out) = (\<lambda>s.
     case out of Done r \<Rightarrow> Some (Done (s\<lparr>resp := r\<rparr>)) | Threw e r \<Rightarrow> Some (Threw e (s\<lparr>resp := r\<rparr>)))"
| "follow f (Calls r \<kappa>) = (\<lambda>s.
     case f (s\<lparr>resp := r\<rparr>) of
       None \<Rightarrow> None
     | Some (Done s') \<Rightarrow> follow f (\<kappa> (Done (resp s'))) s'
     | Some (Threw e s') \<Rightarrow> follow f (\<kappa> (Threw e (resp s'))) s')"

definition then_follow :: "('a hstate_scheme \<Rightarrow> 'a hstate_scheme outcome)
    \<Rightarrow> (response result \<Rightarrow> course) \<Rightarrow> 'a hstate_scheme outcome \<Rightarrow> 'a hstate_scheme outcome" where
  "then_follow f \<kappa> out =
     (case out of
        None \<Rightarrow> None
      | Some (Done s') \<Rightarrow> follow f (\<kappa> (Done (resp s'))) s'
      | Some (Threw e s') \<Rightarrow> follow f (\<kappa> (Threw e (resp s'))) s')"

section \<open>Hooks that need not settle\<close>

text \<open>
  The promise of a hook or handler may stay pending for ever, and then so does every promise
  that awaits it. The dispatcher below is the one above, except that \<open>stalls ev\<close> tells for
  each invocation (named as in the trace) whether it is such a hook: it does what its
  script does and, where the script returns, never settles. An outcome \<open>None\<close> is a promise
  that never settles. With \<open>stalls\<close> false everywhere the two dispatchers are the same
  (\<open>processRequest_stalling_never\<close>), and the fuel is never what makes an outcome \<open>None\<close>
  (\<open>next_step_stalling_fuel_enough\<close>).
\<close>

definition settle :: "(event \<Rightarrow> bool) \<Rightarrow> event \<Rightarrow> 's outcome \<Rightarrow> 's outcome" where
  "settle stalls ev out =
     (case out of
        Some (Done s) \<Rightarrow> if stalls ev then None else Some (Done s)
      | _ \<Rightarrow> out)"

definition run_middleware_stalling :: "(event \<Rightarrow> bool) \<Rightarrow> middleware
    \<Rightarrow> (cstate \<Rightarrow> cstate outcome) \<Rightarrow> request \<Rightarrow> cstate \<Rightarrow> cstate outcome" where
  "run_middleware_stalling stalls m nxt req s =
     (case (case before m of
              Some b \<Rightarrow> settle stalls (EvBefore (name m))
                          (exec nxt (b req) (s\<lparr>trace := trace s @ [EvBefore (name m)]\<rparr>))
            | None \<Rightarrow> nxt s) of
        None \<Rightarrow> None
      | Some (Done s2) \<Rightarrow> Some (Done s2)
      | Some (Threw e s2) \<Rightarrow>
          (case onError m of
             Some oe \<Rightarrow> settle stalls (EvOnError (name m))
                          (exec nxt (oe e req) (s2\<lparr>trace := trace s2 @ [EvOnError (name m)]\<rparr>))
           | None \<Rightarrow> Some (Threw e s2)))"

primrec next_step_stalling :: "(event \<Rightarrow> bool) \<Rightarrow> middleware list \<Rightarrow> (request \<Rightarrow> script)
    \<Rightarrow> request \<Rightarrow> nat \<Rightarrow> cstate \<Rightarrow> cstate outcome" where
  "next_step_stalling stalls allMiddlewares h req 0 = (\<lambda>s. None)"
| "next_step_stalling stalls allMiddlewares h req (Suc fuel) = (\<lambda>s.
     if index s \<ge> length allMiddlewares
     then settle stalls EvHandler (exec noop (h req) (s\<lparr>trace := trace s @ [EvHandler]\<rparr>))
     else run_middleware_stalling stalls (allMiddlewares ! index s)
            (next_step_stalling stalls allMiddlewares h req fuel) req
            (s\<lparr>index := index s + 1\<rparr>))"






text \<open>The run, if it has completed, has done so in a state that satisfies \<open>P\<close>.\<close>

fun within :: "('s \<Rightarrow> bool) \<Rightarrow> 's outcome \<Rightarrow> bool" where
  "within P None = True"
| "within P (Some (Done s)) = P s"
| "within P (Some (Threw e s)) = P s"

section \<open>Vocabulary of the properties\<close>

fun is_before :: "event \<Rightarrow> bool" where
  "is_before (EvBefore n) = True"
| "is_before _ = False"

fun is_after :: "event \<Rightarrow> bool" where
  "is_after (EvAfter n) = True"
| "is_after _ = False"

text \<open>
  The top-level sweep, in the words of the specification: what one global middleware makes
  of the error \<open>e\<close>. It handles it when it has an \<open>onError\<close> and that hook, given a fresh
  response and the no-op continuation, completes without raising; the response it has
  written is then the answer.
\<close>

definition handled :: "error \<Rightarrow> request \<Rightarrow> middleware \<Rightarrow> response option" where
  "handled e req m =
     (case onError m of
        None \<Rightarrow> None
      | Some oe \<Rightarrow>
          (case exec noop (oe e req) \<lparr>resp = createResponse, trace = []\<rparr> of
             Some (Done s) \<Rightarrow> Some (resp s)
           | _ \<Rightarrow> None))"

text \<open>
  The middleware whose \<open>onError\<close> the sweep invokes: those that expose one, in registration
  order, up to and including the first that handles the error.
\<close>

definition swept :: "error \<Rightarrow> request \<Rightarrow> middleware list \<Rightarrow> middleware list" where
  "swept e req ms =
     (let candidates = filter (\<lambda>m. onError m \<noteq> None) ms
      in takeWhile (\<lambda>m. handled e req m = None) candidates
         @ take 1 (dropWhile (\<lambda>m. handled e req m = None) candidates))"

text \<open>A server that differs from \<open>srv\<close> in the \<open>after\<close> hooks of its middleware only.\<close>

definition set_after :: "(middleware \<Rightarrow> (request \<Rightarrow> script) option) \<Rightarrow> middleware \<Rightarrow> middleware" where
  "set_after f m = m\<lparr>after := f m\<rparr>"

definition with_after_hooks :: "(middleware \<Rightarrow> (request \<Rightarrow> script) option) \<Rightarrow> server \<Rightarrow> server" where
  "with_after_hooks f srv =
     srv\<lparr>globalMiddlewares := map (set_after f) (globalMiddlewares srv),
         routes := map (\<lambda>r. r\<lparr>middlewares := map_option (map (set_after f)) (middlewares r)\<rparr>)
                     (routes srv)\<rparr>"

text \<open>Invariants of the chain: the cursor and the trace only grow.\<close>

definition beyond :: "nat \<Rightarrow> event list \<Rightarrow> cstate \<Rightarrow> bool" where
  "beyond i t s \<longleftrightarrow> i \<le> index s \<and> Sublist.prefix t (trace s)"

text \<open>The cursor is past the end of the list \<open>ms\<close>, and since the trace was \<open>t\<close> no \<open>before\<close> hook has run.\<close>

definition past_end :: "middleware list \<Rightarrow> event list \<Rightarrow> cstate \<Rightarrow> bool" where
  "past_end ms t s \<longleftrightarrow>
     length ms \<le> index s \<and> (\<exists>rest. trace s = t @ rest \<and> \<not> list_ex is_before rest)"

section \<open>Example configurations\<close>

definition example_request :: "HttpMethod \<Rightarrow> string \<Rightarrow> request" where
  "example_request m p =
     \<lparr>request.method = m, request.path = p, req_headers = Map.empty, query = Map.empty, params = Map.empty,
      req_body = Undefined, protocol = ''HTTP/1.1''\<rparr>"

text \<open>A middleware whose \<open>before\<close> marks the response and awaits the continuation.\<close>

definition passing :: "string \<Rightarrow> middleware" where
  "passing n =
     \<lparr>name = n, before = Some (\<lambda>req. SetHeader n ''seen'' (Next Return)),
      after = None, onError = None\<rparr>"




definition root_route :: route where
  "root_route =
     \<lparr>method = GET, path = ''/'', handler = (\<lambda>req. Send (JStr ''Root'') Return),
      middlewares = None\<rparr>"

definition boom_route :: route where
  "boom_route =
     \<lparr>method = GET, path = ''/boom'', handler = (\<lambda>req. Throw (Error ''boom'')),
      middlewares = None\<rparr>"

definition items_route :: route where
  "items_route =
     \<lparr>method = GET, path = ''/items'', handler = (\<lambda>req. Json (JObj []) Return),
      middlewares = Some [passing ''C'']\<rparr>"

definition shadowed_route :: route where
  "shadowed_route =
     \<lparr>method = GET, path = ''/items'', handler = (\<lambda>req. Send (JStr ''never'') Return),
      middlewares = None\<rparr>"

definition demo_server :: server where
  "demo_server =
     \<lparr>globalMiddlewares = [passing ''A''],
      routes = [root_route, boom_route, items_route, shadowed_route],
      isRunning = True\<rparr>"










section \<open>Properties of the response builder\<close>

lemma send_Done_sent: "send d r0 = Done r \<Longrightarrow> sent r"
  by (auto simp: send_def split: if_splits)

lemma json_Done_sent: "json d r0 = Done r \<Longrightarrow> sent r"
  by (auto simp: json_def setHeader_def send_def split: if_splits)

lemma sent_rejects:
  assumes "sent r"
  shows "setStatus c r = Threw (Error ''Cannot set status after response has been sent'') r"
    and "setHeader n v r = Threw (Error ''Cannot set headers after response has been sent'') r"
    and "send d r = Threw (Error ''Response has already been sent'') r"
    and "json d r = Threw (Error ''Cannot set headers after response has been sent'') r"
  using assms by (simp_all add: setStatus_def setHeader_def send_def json_def)

text \<open>
  C1. Once \<^verbatim>\<open>send\<close> or \<^verbatim>\<open>json\<close> has completed on a response, \<open>sent\<close> is true, and every
  later \<^verbatim>\<open>setStatus\<close>, \<^verbatim>\<open>setHeader\<close>, \<^verbatim>\<open>send\<close> or \<^verbatim>\<open>json\<close> throws and leaves the
  response (status, headers, body and both flags) exactly as it was before the call.
\<close>

theorem response_write_once:
  assumes "send d0 r0 = Done r \<or> json d0 r0 = Done r"
  shows "sent r
    \<and> setStatus c r = Threw (Error ''Cannot set status after response has been sent'') r
    \<and> setHeader n v r = Threw (Error ''Cannot set headers after response has been sent'') r
    \<and> send d r = Threw (Error ''Response has already been sent'') r
    \<and> json d r = Threw (Error ''Cannot set headers after response has been sent'') r"
proof -
  from assms have "sent r"
    using send_Done_sent json_Done_sent by blast
  then show ?thesis
    by (simp add: sent_rejects)
qed

theorem response_write_once_witness:
  "send (JStr ''Root'') createResponse
     = Done \<lparr>status = Some 200, headers = Map.empty, body = JStr ''Root'',
             sent = True, finished = True\<rparr>
   \<and> setStatus 404 \<lparr>status = Some 200, headers = Map.empty, body = JStr ''Root'',
             sent = True, finished = True\<rparr>
     = Threw (Error ''Cannot set status after response has been sent'')
         \<lparr>status = Some 200, headers = Map.empty, body = JStr ''Root'',
          sent = True, finished = True\<rparr>"
proof -
  have s: "send (JStr ''Root'') createResponse
     = Done \<lparr>status = Some 200, headers = Map.empty, body = JStr ''Root'',
             sent = True, finished = True\<rparr>"
    by (simp add: send_def createResponse_def)
  from response_write_once [of "JStr ''Root''" createResponse _ 404, OF disjI1, OF s] s
  show ?thesis by blast
qed

lemma status_stays_default:
  assumes "\<not> is_setStatus c" and "status r = None \<or> status r = Some 200"
  shows "status (object_after (invoke c r)) = None
       \<or> status (object_after (invoke c r)) = Some 200"
  using assms
  by (cases c) (auto simp: setHeader_def send_def json_def split: if_splits)

lemma after_calls_default:
  assumes "\<forall>c \<in> set cs. \<not> is_setStatus c" and "status r = None \<or> status r = Some 200"
  shows "get_status (after_calls r cs) = 200"
  using assms
proof (induction cs arbitrary: r)
  case Nil
  then show ?case by (auto simp: get_status_def)
next
  case (Cons c cs)
  have "status (object_after (invoke c r)) = None
      \<or> status (object_after (invoke c r)) = Some 200"
    using Cons.prems by (intro status_stays_default) auto
  with Cons show ?case by simp
qed

text \<open>
  C8. On a response on which \<^verbatim>\<open>setStatus\<close> was never called, the \<open>status\<close> getter reads
  200 after any sequence of the other calls: before any send (the empty sequence, or
  header writes only) as well as after a send or json has completed.
\<close>

theorem status_default_200:
  assumes "\<forall>c \<in> set cs. \<not> is_setStatus c"
  shows "get_status (after_calls createResponse cs) = 200"
  using assms by (intro after_calls_default) (simp_all add: createResponse_def)

theorem status_default_200_witness:
  "get_status (after_calls createResponse []) = 200
   \<and> get_status (after_calls createResponse [CallSetHeader ''x-id'' ''7'']) = 200
   \<and> get_status (after_calls createResponse [CallSetHeader ''x-id'' ''7'', CallSend (JStr ''Root'')]) = 200
   \<and> sent (after_calls createResponse [CallSetHeader ''x-id'' ''7'', CallSend (JStr ''Root'')])"
proof -
  have sent: "sent (after_calls createResponse [CallSetHeader ''x-id'' ''7'', CallSend (JStr ''Root'')])"
    by (simp add: createResponse_def setHeader_def send_def)
  show ?thesis
    using status_default_200 [of "[]"]
      status_default_200 [of "[CallSetHeader ''x-id'' ''7'']"]
      status_default_200 [of "[CallSetHeader ''x-id'' ''7'', CallSend (JStr ''Root'')]"]
      sent
    by simp
qed

lemma createErrorResponse_value:
  "createErrorResponse st message =
     Done \<lparr>status = Some st, headers = [''content-type'' \<mapsto> ''application/json''],
            body = JObj [(''error'', JStr message)], sent = True, finished = True\<rparr>"
  by (simp add: createErrorResponse_def createResponse_def setStatus_def json_def
      setHeader_def send_def)

text \<open>
  C10. The fallback response that \<^verbatim>\<open>createErrorResponse\<close> builds (for 404 and 500, and
  for any status and message) is returned finalized: \<open>sent\<close> and \<open>finished\<close> are true, the
  header map has \<open>content-type\<close> \<open>\<mapsto>\<close> \<open>application/json\<close>, and each of \<^verbatim>\<open>setStatus\<close>,
  \<^verbatim>\<open>setHeader\<close>, \<^verbatim>\<open>send\<close> and \<^verbatim>\<open>json\<close> throws on it.
\<close>

theorem fallback_response_finalized:
  "\<exists>r. createErrorResponse st message = Done r
     \<and> sent r \<and> finished r
     \<and> headers r ''content-type'' = Some ''application/json''
     \<and> (\<exists>e. setStatus c r = Threw e r)
     \<and> (\<exists>e. setHeader n v r = Threw e r)
     \<and> (\<exists>e. send d r = Threw e r)
     \<and> (\<exists>e. json d r = Threw e r)"
  by (simp add: createErrorResponse_value setStatus_def setHeader_def send_def json_def)

section \<open>The chain completes\<close>

lemma outcome_cases [case_names Fuel Done Threw]:
  obtains "out = None" | s where "out = Some (Done s)" | e s where "out = Some (Threw e s)"
proof (cases out)
  case None
  then show ?thesis using that by simp
next
  case (Some a)
  then show ?thesis using that by (cases a) auto
qed

lemma completes_in_mono:
  "completes_in P out \<Longrightarrow> (\<And>s. P s \<Longrightarrow> Q s) \<Longrightarrow> completes_in Q out"
  by (cases out rule: outcome_cases) auto

lemma exec_rule:
  assumes f: "\<And>s. I s \<Longrightarrow> completes_in I (f s)"
    and upd: "\<And>s r. I s \<Longrightarrow> I (s\<lparr>resp := r\<rparr>)"
    and "I s"
  shows "completes_in I (exec f p s)"
  using \<open>I s\<close>
proof (induction p arbitrary: s)
  case (Next p)
  from f [OF Next.prems] show ?case
    by (cases "f s" rule: outcome_cases) (auto intro: Next.IH)
next
  case (Try a h k)
  have a: "completes_in I (exec f a s)" by (rule Try.IH(1) [OF Try.prems])
  show ?case
  proof (cases "exec f a s" rule: outcome_cases)
    case Fuel
    with a show ?thesis by simp
  next
    case (Done s')
    with a show ?thesis by (auto intro: Try.IH(3))
  next
    case (Threw e s')
    with a have "I s'" by simp
    then have h: "completes_in I (exec f (h e) s')" by (intro Try.IH(2)) auto
    show ?thesis
      using Threw h by (cases "exec f (h e) s'" rule: outcome_cases) (auto intro: Try.IH(3))
  qed
qed (auto simp: upd split: result.splits)

lemma noop_completes: "I s \<Longrightarrow> completes_in I (noop s)"
  by (simp add: noop_def)

lemma beyond_resp [simp]: "beyond i t (s\<lparr>resp := r\<rparr>) = beyond i t s"
  by (simp add: beyond_def)

lemma beyond_weaken: "beyond j t s \<Longrightarrow> i \<le> j \<Longrightarrow> beyond i t s"
  by (simp add: beyond_def)

lemma beyond_log: "beyond i t s \<Longrightarrow> beyond i t (s\<lparr>trace := trace s @ es\<rparr>)"
  by (simp add: beyond_def Sublist.prefix_def) auto

lemma run_middleware_catch:
  assumes inner: "completes_in I (case before m of
        Some b \<Rightarrow> exec f (b req) (s\<lparr>trace := trace s @ [EvBefore (name m)]\<rparr>)
      | None \<Rightarrow> f s)"
    and f: "\<And>s. I s \<Longrightarrow> completes_in I (f s)"
    and upd: "\<And>s r. I s \<Longrightarrow> I (s\<lparr>resp := r\<rparr>)"
    and log: "\<And>s. I s \<Longrightarrow> I (s\<lparr>trace := trace s @ [EvOnError (name m)]\<rparr>)"
  shows "completes_in I (run_middleware m f req s)"
proof -
  define inner where "inner = (case before m of
        Some b \<Rightarrow> exec f (b req) (s\<lparr>trace := trace s @ [EvBefore (name m)]\<rparr>)
      | None \<Rightarrow> f s)"
  from inner have "completes_in I inner" by (simp add: inner_def)
  then show ?thesis
    unfolding run_middleware_def inner_def [symmetric]
    by (cases inner rule: outcome_cases; cases "onError m")
      (auto intro!: exec_rule f upd log)
qed

lemma run_middleware_rule:
  assumes f: "\<And>s. I s \<Longrightarrow> completes_in I (f s)"
    and upd: "\<And>s r. I s \<Longrightarrow> I (s\<lparr>resp := r\<rparr>)"
    and log: "\<And>s. I s \<Longrightarrow> I (s\<lparr>trace := trace s @ [EvBefore (name m)]\<rparr>)"
      "\<And>s. I s \<Longrightarrow> I (s\<lparr>trace := trace s @ [EvOnError (name m)]\<rparr>)"
    and "I s"
  shows "completes_in I (run_middleware m f req s)"
proof (rule run_middleware_catch)
  show "completes_in I (case before m of
        Some b \<Rightarrow> exec f (b req) (s\<lparr>trace := trace s @ [EvBefore (name m)]\<rparr>)
      | None \<Rightarrow> f s)"
    using \<open>I s\<close> by (cases "before m") (auto intro!: exec_rule f upd log)
qed (rule f upd log; assumption)+

lemma next_step_rule:
  assumes upd: "\<And>s r. I s \<Longrightarrow> I (s\<lparr>resp := r\<rparr>)"
    and log: "\<And>s ev. I s \<Longrightarrow> \<not> is_after ev \<Longrightarrow> I (s\<lparr>trace := trace s @ [ev]\<rparr>)"
    and idx: "\<And>s. I s \<Longrightarrow> I (s\<lparr>index := index s + 1\<rparr>)"
  shows "I s \<Longrightarrow> length ms - index s < n
    \<Longrightarrow> completes_in (\<lambda>s'. I s' \<and> beyond (index s) (trace s) s') (next_step ms h req n s)"
proof (induction n arbitrary: s)
  case 0
  then show ?case by simp
next
  case (Suc n)
  let ?I = "\<lambda>s'. I s' \<and> beyond (index s) (trace s) s'"
  have I: "?I s" using Suc.prems by (simp add: beyond_def)
  show ?case
  proof (cases "length ms \<le> index s")
    case True
    have "completes_in ?I (exec noop (h req) (s\<lparr>trace := trace s @ [EvHandler]\<rparr>))"
      by (rule exec_rule) (use I in \<open>auto intro: noop_completes upd log beyond_log\<close>)
    with True show ?thesis by simp
  next
    case False
    let ?J = "\<lambda>s'. I s' \<and> beyond (Suc (index s)) (trace s) s'"
    have J: "?J (s\<lparr>index := index s + 1\<rparr>)"
      using Suc.prems idx [of s] by (simp add: beyond_def)
    have nxt: "completes_in ?J (next_step ms h req n s')" if "?J s'" for s'
    proof -
      from that Suc.prems False have "length ms - index s' < n"
        by (auto simp: beyond_def)
      from Suc.IH [OF _ this] that show ?thesis
        by (auto elim!: completes_in_mono simp: beyond_def intro: prefix_order.trans)
    qed
    have "completes_in ?J (run_middleware (ms ! index s) (next_step ms h req n) req (s\<lparr>index := index s + 1\<rparr>))"
      by (rule run_middleware_rule [where I = ?J]) (use J in \<open>auto intro: nxt upd log beyond_log\<close>)
    then have "completes_in ?I (run_middleware (ms ! index s) (next_step ms h req n) req (s\<lparr>index := index s + 1\<rparr>))"
      by (rule completes_in_mono) (auto intro: beyond_weaken)
    with False show ?thesis by simp
  qed
qed

lemma next_step_completes:
  "length ms - index s < n \<Longrightarrow> completes_in (beyond (index s) (trace s)) (next_step ms h req n s)"
  by (rule completes_in_mono [OF next_step_rule [where I = "\<lambda>_. True"]]) simp_all


lemma exec_fuel_mono:
  assumes "\<And>s r. f s = Some r \<Longrightarrow> g s = Some r"
  shows "exec f p s = Some r \<Longrightarrow> exec g p s = Some r"
proof (induction p arbitrary: s r)
  case (Next p)
  then show ?case
    by (cases "f s" rule: outcome_cases) (auto dest: assms)
next
  case (Try a h k)
  then show ?case
    by (cases "exec f a s" rule: outcome_cases; cases "exec f (h e) s'" rule: outcome_cases)
      (auto split: option.splits result.splits)
qed (auto split: result.splits)

lemma run_middleware_fuel_mono:
  assumes fg: "\<And>s r. f s = Some r \<Longrightarrow> g s = Some r"
    and run: "run_middleware m f req s = Some r"
  shows "run_middleware m g req s = Some r"
proof -
  define inner where "inner k = (case before m of
        Some b \<Rightarrow> exec k (b req) (s\<lparr>trace := trace s @ [EvBefore (name m)]\<rparr>)
      | None \<Rightarrow> k s)" for k
  from run obtain x where x: "inner f = Some x"
    unfolding run_middleware_def inner_def [symmetric] by (cases "inner f") auto
  then have y: "inner g = Some x"
    unfolding inner_def by (cases "before m") (auto intro: fg exec_fuel_mono [of f g])
  show ?thesis
  proof (cases x)
    case (Done s2)
    with x y run show ?thesis
      unfolding run_middleware_def inner_def [symmetric] by auto
  next
    case (Threw e s2)
    with x y run show ?thesis
      unfolding run_middleware_def inner_def [symmetric]
      by (cases "onError m") (auto intro: fg exec_fuel_mono [of f g])
  qed
qed

lemma next_step_fuel_Suc:
  "next_step ms h req n s = Some r \<Longrightarrow> next_step ms h req (Suc n) s = Some r"
proof (induction n arbitrary: s r)
  case 0
  then show ?case by simp
next
  case (Suc n)
  show ?case
  proof (cases "length ms \<le> index s")
    case True
    with Suc.prems show ?thesis by simp
  next
    case False
    with Suc.prems have "run_middleware (ms ! index s) (next_step ms h req n) req
        (s\<lparr>index := index s + 1\<rparr>) = Some r"
      by simp
    then have "run_middleware (ms ! index s) (next_step ms h req (Suc n)) req
        (s\<lparr>index := index s + 1\<rparr>) = Some r"
      by (rule run_middleware_fuel_mono [rotated]) (rule Suc.IH)
    with False show ?thesis by simp
  qed
qed

lemma next_step_fuel_mono:
  "next_step ms h req n s = Some r \<Longrightarrow> next_step ms h req (n + k) s = Some r"
  by (induction k) (auto dest: next_step_fuel_Suc)

text \<open>Enough fuel: the chain completes, and more fuel changes nothing.\<close>
lemma next_fuel_enough:
  assumes "length ms - index s < n"
  shows "\<exists>r. next_step ms h req n s = Some r \<and> (\<forall>k. next_step ms h req (n + k) s = Some r)"
proof -
  from next_step_completes [OF assms, of h req]
  obtain r where "next_step ms h req n s = Some r"
    by (cases "next_step ms h req n s") auto
  then show ?thesis by (auto dest: next_step_fuel_mono)
qed

lemma executeMiddlewareChain_completes:
  "completes_in (\<lambda>s. True) (executeMiddlewareChain srv rt req)"
  unfolding executeMiddlewareChain_def Let_def
  by (rule completes_in_mono [OF next_step_completes]) simp_all

section \<open>The top-level sweep (\<^verbatim>\<open>handleError\<close>)\<close>

lemma exec_noop_completes:
  "completes_in (\<lambda>s'. trace s' = trace s) (exec noop p s)"
  by (rule exec_rule) (simp_all add: noop_def)

lemma exec_noop_trace:
  "exec noop p \<lparr>resp = r, trace = t, \<dots> = z\<rparr>
     = map_option (map_result (trace_update (\<lambda>_. t))) (exec noop p \<lparr>resp = r, trace = t0, \<dots> = z\<rparr>)"
proof (induction p arbitrary: r t0 z)
  case (Try a h k)
  note a = Try.IH(1) [where r = r and ?t0.0 = t0 and z = z]
  show ?case
  proof (cases "exec noop a \<lparr>resp = r, trace = t0, \<dots> = z\<rparr>" rule: outcome_cases)
    case Fuel
    with a show ?thesis by simp
  next
    case (Done s')
    obtain r' t' z' where s': "s' = \<lparr>resp = r', trace = t', \<dots> = z'\<rparr>"
      by (cases s')
    from Done a s' Try.IH(3) [where r = r' and ?t0.0 = t' and z = z'] show ?thesis by simp
  next
    case (Threw e s')
    obtain r' t' z' where s': "s' = \<lparr>resp = r', trace = t', \<dots> = z'\<rparr>"
      by (cases s')
    note h = Try.IH(2) [of "h e", where r = r' and ?t0.0 = t' and z = z']
    show ?thesis
    proof (cases "exec noop (h e) \<lparr>resp = r', trace = t', \<dots> = z'\<rparr>" rule: outcome_cases)
      case Fuel
      with Threw a s' h show ?thesis by simp
    next
      case (Done s'')
      obtain r'' t'' z'' where s'': "s'' = \<lparr>resp = r'', trace = t'', \<dots> = z''\<rparr>"
        by (cases s'')
      from Done Threw a s' s'' h Try.IH(3) [where r = r'' and ?t0.0 = t'' and z = z''] show ?thesis by simp
    next
      case (Threw e' s'')
      with \<open>exec noop a _ = Some (Threw e s')\<close> a s' h show ?thesis by simp
    qed
  qed
qed (auto simp: noop_def split: result.splits)

lemma exec_noop_Some: "\<exists>x. exec noop p s = Some x"
  using exec_noop_completes [of s p] by (cases "exec noop p s") auto

lemma handled_onError: "handled e req m = Some r \<Longrightarrow> onError m \<noteq> None"
  by (auto simp: handled_def split: option.splits)

lemma swept_skip: "onError m = None \<Longrightarrow> swept e req (m # ms) = swept e req ms"
  by (simp add: swept_def Let_def)

lemma swept_stop: "handled e req m = Some r \<Longrightarrow> swept e req (m # ms) = [m]"
  by (frule handled_onError) (simp add: swept_def Let_def)

lemma swept_pass:
  "onError m = Some oe \<Longrightarrow> handled e req m = None \<Longrightarrow> swept e req (m # ms) = m # swept e req ms"
  by (simp add: swept_def Let_def)

lemma handleError_from_sweep:
  "\<exists>h. handleError_from ms e req tr = Some (Done h)
     \<and> resp h = (case List.map_filter (handled e req) ms of
          [] \<Rightarrow> \<lparr>status = Some 500, headers = [''content-type'' \<mapsto> ''application/json''],
                 body = JObj [(''error'', JStr ''Internal Server Error'')],
                 sent = True, finished = True\<rparr>
        | r # _ \<Rightarrow> r)
     \<and> trace h = tr @ map (\<lambda>m. EvOnError (name m)) (swept e req ms)"
proof (induction ms arbitrary: tr)
  case Nil
  then show ?case
    by (simp add: createErrorResponse_value swept_def List.map_filter_simps)
next
  case (Cons m ms)
  show ?case
  proof (cases "onError m")
    case None
    then have "handled e req m = None" by (simp add: handled_def)
    with None Cons.IH [of tr] show ?thesis
      by (simp add: swept_skip List.map_filter_simps)
  next
    case (Some oe)
    let ?t = "tr @ [EvOnError (name m)]"
    have tr: "exec noop (oe e req) \<lparr>resp = createResponse, trace = ?t\<rparr>
        = map_option (map_result (trace_update (\<lambda>_. ?t)))
            (exec noop (oe e req) \<lparr>resp = createResponse, trace = []\<rparr>)"
      by (rule exec_noop_trace)
    show ?thesis
    proof (cases "exec noop (oe e req) \<lparr>resp = createResponse, trace = []\<rparr>" rule: outcome_cases)
      case Fuel
      with exec_noop_Some show ?thesis by (metis option.distinct(1))
    next
      case (Done s)
      with Some have "handled e req m = Some (resp s)" by (simp add: handled_def)
      with Some Done tr show ?thesis
        by (simp add: swept_stop List.map_filter_simps)
    next
      case (Threw e' s)
      with Some have "handled e req m = None" by (simp add: handled_def)
      with Some Threw tr Cons.IH [of ?t] show ?thesis
        by (simp add: swept_pass List.map_filter_simps)
    qed
  qed
qed



section \<open>The dispatcher resolves (\<^verbatim>\<open>processRequest\<close>)\<close>

lemma processRequest_resolves: "\<exists>h. processRequest srv req = Some (Done h)"
proof (cases "findRoute srv (request.method req) (request.path req)")
  case None
  then show ?thesis
    by (simp add: processRequest_def createErrorResponse_value)
next
  case (Some rt)
  show ?thesis
  proof (cases "executeMiddlewareChain srv rt req" rule: outcome_cases)
    case Fuel
    with executeMiddlewareChain_completes [of srv rt req] show ?thesis by simp
  next
    case (Done s)
    with Some show ?thesis by (simp add: processRequest_def)
  next
    case (Threw e s)
    with Some handleError_from_sweep [of "globalMiddlewares srv" e req "trace s"]
    show ?thesis by (auto simp: processRequest_def handleError_def)
  qed
qed


text \<open>
  C6. When no registered route matches the method and path of the request,
  \<^verbatim>\<open>processRequest\<close> returns the response with status 404 and JSON body
  \<^verbatim>\<open>{"error":"Not Found"}\<close>, and the trace is empty: no hook of any middleware and no
  handler has been invoked.
\<close>

theorem not_found_response:
  assumes "findRoute srv (request.method req) (request.path req) = None"
  shows "processRequest srv req =
     Some (Done \<lparr>resp = \<lparr>status = Some 404, headers = [''content-type'' \<mapsto> ''application/json''],
                          body = JObj [(''error'', JStr ''Not Found'')],
                          sent = True, finished = True\<rparr>,
                  trace = []\<rparr>)"
  using assms by (simp add: processRequest_def createErrorResponse_value)

theorem not_found_response_witness:
  "processRequest demo_server (example_request POST ''/missing'') =
     Some (Done \<lparr>resp = \<lparr>status = Some 404, headers = [''content-type'' \<mapsto> ''application/json''],
                          body = JObj [(''error'', JStr ''Not Found'')],
                          sent = True, finished = True\<rparr>,
                  trace = []\<rparr>)"
proof -
  have "findRoute demo_server (request.method (example_request POST ''/missing''))
      (request.path (example_request POST ''/missing'')) = None"
    by (simp add: findRoute_def demo_server_def example_request_def root_route_def boom_route_def
        items_route_def shadowed_route_def pathMatches_def)
  then show ?thesis by (rule not_found_response)
qed

section \<open>Hooks that never settle\<close>

lemma settle_never [simp]: "settle (\<lambda>ev. False) ev out = out"
  by (simp add: settle_def split: option.splits result.splits)

lemma run_middleware_stalling_never [simp]:
  "run_middleware_stalling (\<lambda>ev. False) m nxt req s = run_middleware m nxt req s"
  by (simp add: run_middleware_stalling_def run_middleware_def
      cong: option.case_cong result.case_cong)






lemma within_mono: "within P out \<Longrightarrow> (\<And>s. P s \<Longrightarrow> Q s) \<Longrightarrow> within Q out"
  by (cases out rule: outcome_cases) auto

lemma settle_within: "within P out \<Longrightarrow> within P (settle stalls ev out)"
  by (cases out rule: outcome_cases) (auto simp: settle_def)

lemma exec_within:
  assumes f: "\<And>s. I s \<Longrightarrow> within I (f s)"
    and upd: "\<And>s r. I s \<Longrightarrow> I (s\<lparr>resp := r\<rparr>)"
  shows "I s \<Longrightarrow> within I (exec f p s)"
proof (induction p arbitrary: s)
  case (Next p)
  from f [OF Next.prems] show ?case
    by (cases "f s" rule: outcome_cases) (auto intro: Next.IH)
next
  case (Try a h k)
  have a: "within I (exec f a s)" by (rule Try.IH(1) [OF Try.prems])
  show ?case
  proof (cases "exec f a s" rule: outcome_cases)
    case Fuel
    then show ?thesis by simp
  next
    case (Done s')
    with a show ?thesis by (auto intro: Try.IH(3))
  next
    case (Threw e s')
    with a have "I s'" by simp
    then have h: "within I (exec f (h e) s')" by (intro Try.IH(2)) auto
    show ?thesis
      using Threw h by (cases "exec f (h e) s'" rule: outcome_cases) (auto intro: Try.IH(3))
  qed
qed (auto simp: upd split: result.splits)

lemma exec_cong_on:
  assumes fg: "\<And>s. I s \<Longrightarrow> f s = g s"
    and f: "\<And>s. I s \<Longrightarrow> within I (f s)"
    and upd: "\<And>s r. I s \<Longrightarrow> I (s\<lparr>resp := r\<rparr>)"
  shows "I s \<Longrightarrow> exec f p s = exec g p s"
proof (induction p arbitrary: s)
  case (Next p)
  note fs = f [OF Next.prems] and eq = fg [OF Next.prems, symmetric]
  show ?case
  proof (cases "f s" rule: outcome_cases)
    case Fuel
    with eq show ?thesis by simp
  next
    case (Done s')
    with fs have "I s'" by simp
    then have "exec f p s' = exec g p s'" by (rule Next.IH)
    with Done eq show ?thesis by simp
  next
    case (Threw e s')
    with eq show ?thesis by simp
  qed
next
  case (Try a h k)
  have a: "exec g a s = exec f a s" by (rule Try.IH(1) [OF Try.prems, symmetric])
  have wa: "within I (exec f a s)" by (rule exec_within [OF f upd Try.prems])
  show ?case
  proof (cases "exec f a s" rule: outcome_cases)
    case Fuel
    with a show ?thesis by simp
  next
    case (Done s')
    with wa have "I s'" by simp
    then have "exec f k s' = exec g k s'" by (rule Try.IH(3))
    with Done a show ?thesis by simp
  next
    case (Threw e s')
    with wa have s': "I s'" by simp
    then have h: "exec g (h e) s' = exec f (h e) s'" by (intro Try.IH(2) [symmetric]) auto
    have wh: "within I (exec f (h e) s')" by (rule exec_within [OF f upd s'])
    show ?thesis
    proof (cases "exec f (h e) s'" rule: outcome_cases)
      case Fuel
      with Threw a h show ?thesis by simp
    next
      case (Done s'')
      with wh have "I s''" by simp
      then have "exec f k s'' = exec g k s''" by (rule Try.IH(3))
      with Done Threw a h show ?thesis by simp
    next
      case (Threw e' s'')
      with \<open>exec f a s = Some (Threw e s')\<close> a h show ?thesis by simp
    qed
  qed
qed (auto simp: upd split: result.splits)

lemma run_middleware_stalling_within:
  assumes f: "\<And>s. I s \<Longrightarrow> within I (f s)"
    and upd: "\<And>s r. I s \<Longrightarrow> I (s\<lparr>resp := r\<rparr>)"
    and log: "\<And>s ev. I s \<Longrightarrow> I (s\<lparr>trace := trace s @ [ev]\<rparr>)"
    and "I s"
  shows "within I (run_middleware_stalling stalls m f req s)"
proof -
  define inner where "inner = (case before m of
        Some b \<Rightarrow> settle stalls (EvBefore (name m))
                    (exec f (b req) (s\<lparr>trace := trace s @ [EvBefore (name m)]\<rparr>))
      | None \<Rightarrow> f s)"
  have "within I inner"
    unfolding inner_def using \<open>I s\<close>
    by (cases "before m") (auto intro!: settle_within exec_within f upd log)
  then show ?thesis
    unfolding run_middleware_stalling_def inner_def [symmetric]
    by (cases inner rule: outcome_cases; cases "onError m")
      (auto intro!: settle_within exec_within f upd log)
qed

lemma run_middleware_stalling_cong:
  assumes fg: "\<And>s. I s \<Longrightarrow> f s = g s"
    and f: "\<And>s. I s \<Longrightarrow> within I (f s)"
    and upd: "\<And>s r. I s \<Longrightarrow> I (s\<lparr>resp := r\<rparr>)"
    and log: "\<And>s ev. I s \<Longrightarrow> I (s\<lparr>trace := trace s @ [ev]\<rparr>)"
    and "I s"
  shows "run_middleware_stalling stalls m f req s = run_middleware_stalling stalls m g req s"
proof -
  define inner where "inner k = (case before m of
        Some b \<Rightarrow> settle stalls (EvBefore (name m))
                    (exec k (b req) (s\<lparr>trace := trace s @ [EvBefore (name m)]\<rparr>))
      | None \<Rightarrow> k s)" for k
  have eq: "inner f = inner g"
    unfolding inner_def using \<open>I s\<close>
    by (cases "before m") (auto intro!: arg_cong [where f = "settle stalls _"]
        exec_cong_on [where I = I] fg f upd log)
  have w: "within I (inner f)"
    unfolding inner_def using \<open>I s\<close>
    by (cases "before m") (auto intro!: settle_within exec_within f upd log)
  show ?thesis
  proof (cases "inner f" rule: outcome_cases)
    case Fuel
    moreover from Fuel eq have "inner g = None" by simp
    ultimately show ?thesis
      unfolding run_middleware_stalling_def inner_def [symmetric] by simp
  next
    case (Done s2)
    moreover from Done eq have "inner g = Some (Done s2)" by simp
    ultimately show ?thesis
      unfolding run_middleware_stalling_def inner_def [symmetric] by simp
  next
    case (Threw e s2)
    with w have "I s2" by simp
    then have "exec f (oe e req) (s2\<lparr>trace := trace s2 @ [EvOnError (name m)]\<rparr>)
        = exec g (oe e req) (s2\<lparr>trace := trace s2 @ [EvOnError (name m)]\<rparr>)" for oe
      by (intro exec_cong_on [where I = I] fg f upd log)
    moreover from Threw eq have "inner g = Some (Threw e s2)" by simp
    ultimately show ?thesis
      using Threw unfolding run_middleware_stalling_def inner_def [symmetric]
      by (cases "onError m") simp_all
  qed
qed

lemma next_step_stalling_within:
  "within (beyond (index s) (trace s)) (next_step_stalling stalls ms h req n s)"
proof (induction n arbitrary: s)
  case 0
  show ?case by simp
next
  case (Suc n)
  let ?I = "beyond (index s) (trace s)"
  have I: "?I s" by (simp add: beyond_def)
  show ?case
  proof (cases "length ms \<le> index s")
    case True
    have "within ?I (exec noop (h req) (s\<lparr>trace := trace s @ [EvHandler]\<rparr>))"
      by (rule exec_within) (use I in \<open>auto simp: noop_def intro: beyond_log\<close>)
    with True show ?thesis by (simp add: settle_within)
  next
    case False
    have nxt: "within ?I (next_step_stalling stalls ms h req n s')" if "?I s'" for s'
      using Suc.IH [of s'] that
      by (auto elim!: within_mono simp: beyond_def intro: prefix_order.trans)
    have "within ?I (run_middleware_stalling stalls (ms ! index s)
        (next_step_stalling stalls ms h req n) req (s\<lparr>index := index s + 1\<rparr>))"
      by (rule run_middleware_stalling_within) (use I in \<open>auto intro: nxt beyond_log simp: beyond_def\<close>)
    with False show ?thesis by simp
  qed
qed

lemma next_step_stalling_fuel_Suc:
  "length ms - index s < n
    \<Longrightarrow> next_step_stalling stalls ms h req (Suc n) s = next_step_stalling stalls ms h req n s"
proof (induction n arbitrary: s)
  case 0
  then show ?case by simp
next
  case (Suc n)
  show ?case
  proof (cases "length ms \<le> index s")
    case True
    then show ?thesis by simp
  next
    case False
    let ?J = "beyond (Suc (index s)) (trace s)"
    have J: "?J (s\<lparr>index := index s + 1\<rparr>)" by (simp add: beyond_def)
    have fg: "next_step_stalling stalls ms h req (Suc n) s' = next_step_stalling stalls ms h req n s'"
      if "?J s'" for s'
    proof -
      from that Suc.prems False have "length ms - index s' < n" by (auto simp: beyond_def)
      then show ?thesis by (rule Suc.IH)
    qed
    have w: "within ?J (next_step_stalling stalls ms h req (Suc n) s')" if "?J s'" for s'
    proof (rule within_mono [OF next_step_stalling_within])
      fix s''
      assume "beyond (index s') (trace s') s''"
      with that show "?J s''"
        by (auto simp: beyond_def intro: prefix_order.trans)
    qed
    have "run_middleware_stalling stalls (ms ! index s)
          (next_step_stalling stalls ms h req (Suc n)) req (s\<lparr>index := index s + 1\<rparr>)
        = run_middleware_stalling stalls (ms ! index s)
          (next_step_stalling stalls ms h req n) req (s\<lparr>index := index s + 1\<rparr>)"
      by (rule run_middleware_stalling_cong [where I = ?J])
        (use J in \<open>auto intro: fg w beyond_log simp del: next_step_stalling.simps\<close>)
    with False show ?thesis by simp
  qed
qed

lemma next_step_stalling_fuel_enough:
  "length ms - index s < n
    \<Longrightarrow> next_step_stalling stalls ms h req (n + k) s = next_step_stalling stalls ms h req n s"
  by (induction k) (simp_all add: next_step_stalling_fuel_Suc del: next_step_stalling.simps)




section \<open>Route table (\<^verbatim>\<open>findRoute\<close>)\<close>

text \<open>
  C7. \<^verbatim>\<open>findRoute\<close> returns the first route, in registration order, whose method equals
  the given method and whose path is the same string as the given path, and nothing
  (\<open>None\<close>, for \<^verbatim>\<open>undefined\<close>) exactly when no route matches in this way. Paths are
  compared as they are: no trailing slash is added or removed, no parameter is extracted.
\<close>

theorem findRoute_first_exact_match:
  "(findRoute srv m p = None
      \<longleftrightarrow> \<not> (\<exists>r \<in> set (routes srv). route.method r = m \<and> route.path r = p))
   \<and> (findRoute srv m p = Some r
      \<longleftrightarrow> (\<exists>i < length (routes srv). routes srv ! i = r
            \<and> route.method r = m \<and> route.path r = p
            \<and> (\<forall>j < i. \<not> (route.method (routes srv ! j) = m \<and> route.path (routes srv ! j) = p))))"
  by (auto simp: findRoute_def pathMatches_def find_None_iff find_Some_iff)

theorem findRoute_first_exact_match_witness:
  "findRoute demo_server GET ''/items'' = Some items_route
   \<and> findRoute demo_server GET ''/items/'' = None
   \<and> findRoute demo_server POST ''/items'' = None"
proof -
  have routes: "routes demo_server = [root_route, boom_route, items_route, shadowed_route]"
    by (simp add: demo_server_def)
  have "\<exists>i < length (routes demo_server). routes demo_server ! i = items_route
      \<and> route.method items_route = GET \<and> route.path items_route = ''/items''
      \<and> (\<forall>j < i. \<not> (route.method (routes demo_server ! j) = GET
                     \<and> route.path (routes demo_server ! j) = ''/items''))"
    by (rule exI [of _ 2])
      (auto simp: routes items_route_def root_route_def boom_route_def less_Suc_eq numeral_2_eq_2)
  then have 1: "findRoute demo_server GET ''/items'' = Some items_route"
    using findRoute_first_exact_match [of demo_server GET "''/items''" items_route] by blast
  have "\<not> (\<exists>r \<in> set (routes demo_server). route.method r = GET \<and> route.path r = ''/items/'')"
    by (simp add: routes items_route_def root_route_def boom_route_def shadowed_route_def)
  then have 2: "findRoute demo_server GET ''/items/'' = None"
    using findRoute_first_exact_match [of demo_server GET "''/items/''" items_route] by blast
  have "\<not> (\<exists>r \<in> set (routes demo_server). route.method r = POST \<and> route.path r = ''/items'')"
    by (simp add: routes items_route_def root_route_def boom_route_def shadowed_route_def)
  then have 3: "findRoute demo_server POST ''/items'' = None"
    using findRoute_first_exact_match [of demo_server POST "''/items''" items_route] by blast
  from 1 2 3 show ?thesis by blast
qed

section \<open>The \<open>after\<close> hooks are inert\<close>

lemma run_middleware_set_after [simp]:
  "run_middleware (set_after f m) nxt req s = run_middleware m nxt req s"
  by (simp add: run_middleware_def set_after_def cong: option.case_cong result.case_cong)

lemma next_step_set_after:
  "next_step (map (set_after f) ms) h req n = next_step ms h req n"
proof (induction n)
  case 0
  show ?case by simp
next
  case (Suc n)
  show ?case by (rule ext) (simp add: Suc)
qed

lemma handleError_from_set_after:
  "handleError_from (map (set_after f) ms) e req tr = handleError_from ms e req tr"
  by (induction ms arbitrary: tr)
    (auto simp: set_after_def split: option.splits result.splits)

lemma find_map_route:
  "List.find P (map g xs) = map_option g (List.find (\<lambda>x. P (g x)) xs)"
  by (induction xs) auto

lemma findRoute_with_after_hooks:
  "findRoute (with_after_hooks f srv) m p
     = map_option (\<lambda>r. r\<lparr>middlewares := map_option (map (set_after f)) (middlewares r)\<rparr>)
         (findRoute srv m p)"
  by (simp add: findRoute_def with_after_hooks_def find_map_route)

lemma executeMiddlewareChain_with_after_hooks:
  "executeMiddlewareChain (with_after_hooks f srv)
       (rt\<lparr>middlewares := map_option (map (set_after f)) (middlewares rt)\<rparr>) req
     = executeMiddlewareChain srv rt req"
proof -
  have "map (set_after f) (globalMiddlewares srv) @ (case map_option (map (set_after f)) (middlewares rt) of None \<Rightarrow> [] | Some ms \<Rightarrow> ms)
      = map (set_after f) (globalMiddlewares srv @ (case middlewares rt of None \<Rightarrow> [] | Some ms \<Rightarrow> ms))"
    by (cases "middlewares rt") auto
  then show ?thesis
    by (simp add: executeMiddlewareChain_def with_after_hooks_def Let_def next_step_set_after
        del: map_append)
qed

lemma processRequest_with_after_hooks:
  "processRequest (with_after_hooks f srv) req = processRequest srv req"
proof -
  have "handleError (with_after_hooks f srv) e req tr = handleError srv e req tr" for e tr
    by (simp add: handleError_def with_after_hooks_def handleError_from_set_after)
  then show ?thesis
    by (cases "findRoute srv (request.method req) (request.path req)")
      (simp_all add: processRequest_def findRoute_with_after_hooks
        executeMiddlewareChain_with_after_hooks cong: option.case_cong result.case_cong)
qed

lemma no_after_trace:
  "completes_in (\<lambda>s. \<not> list_ex is_after (trace s)) (executeMiddlewareChain srv rt req)"
  unfolding executeMiddlewareChain_def Let_def
  by (rule completes_in_mono [OF next_step_rule [where I = "\<lambda>s. \<not> list_ex is_after (trace s)"]])
    simp_all

lemma swept_no_after: "\<not> list_ex is_after (map (\<lambda>m. EvOnError (name m)) ms)"
  by (induction ms) auto

lemma processRequest_no_after:
  "processRequest srv req = Some (Done h) \<Longrightarrow> \<not> list_ex is_after (trace h)"
proof (cases "findRoute srv (request.method req) (request.path req)")
  case None
  assume "processRequest srv req = Some (Done h)"
  with None show ?thesis
    by (auto simp: processRequest_def createErrorResponse_value)
next
  case (Some rt)
  assume h: "processRequest srv req = Some (Done h)"
  show ?thesis
  proof (cases "executeMiddlewareChain srv rt req" rule: outcome_cases)
    case Fuel
    with executeMiddlewareChain_completes [of srv rt req] show ?thesis by simp
  next
    case (Done s)
    with no_after_trace [of srv rt req] Some h show ?thesis
      by (auto simp: processRequest_def)
  next
    case (Threw e s)
    with no_after_trace [of srv rt req] have "\<not> list_ex is_after (trace s)" by simp
    with Threw Some h handleError_from_sweep [of "globalMiddlewares srv" e req "trace s"]
      swept_no_after [of "swept e req (globalMiddlewares srv)"]
    show ?thesis
      by (auto simp: processRequest_def handleError_def)
  qed
qed

text \<open>
  C9. No \<open>after\<close> hook is ever invoked by \<^verbatim>\<open>processRequest\<close>: the response and the trace
  of invocations are the same whatever the \<open>after\<close> hooks of the global and route-scoped
  middleware are replaced with, and the trace of the run holds no invocation of an
  \<open>after\<close> hook, whether or not errors occur.
\<close>

theorem after_hooks_inert:
  "processRequest (with_after_hooks f srv) req = processRequest srv req
   \<and> (\<exists>h. processRequest srv req = Some (Done h) \<and> \<not> list_ex is_after (trace h))"
  using processRequest_resolves [of srv req]
  by (auto simp: processRequest_with_after_hooks dest: processRequest_no_after)

section \<open>Order of the middleware chain\<close>

lemma then_follow_simps [simp]:
  "then_follow f \<kappa> None = None"
  "then_follow f \<kappa> (Some (Done s')) = follow f (\<kappa> (Done (resp s'))) s'"
  "then_follow f \<kappa> (Some (Threw e s')) = follow f (\<kappa> (Threw e (resp s'))) s'"
  by (simp_all add: then_follow_def)

lemma follow_resp [simp]: "follow f c (s\<lparr>resp := r\<rparr>) = follow f c s"
  by (cases c) (simp_all split: result.splits)



lemma past_end_resp [simp]: "past_end ms t (s\<lparr>resp := r\<rparr>) = past_end ms t s"
  by (simp add: past_end_def)















section \<open>Registration after start\<close>

lemma route_after_start_rejected:
  "isRunning srv \<Longrightarrow> route srv routeInput = Threw (Error ''Cannot add routes after server has started'') srv"
  by (simp add: route_def)

text \<open>
  C4. On a server that has been started, \<^verbatim>\<open>route\<close> throws and leaves the server as it
  is, but \<^verbatim>\<open>use\<close> has no such guard: it appends the middleware to the global list and
  returns normally.
\<close>

theorem use_after_start_accepted:
  "start \<lparr>globalMiddlewares = [], routes = [], isRunning = False\<rparr> None
     = Done \<lparr>globalMiddlewares = [], routes = [], isRunning = True\<rparr>
   \<and> route \<lparr>globalMiddlewares = [], routes = [], isRunning = True\<rparr> (Single root_route)
     = Threw (Error ''Cannot add routes after server has started'')
         \<lparr>globalMiddlewares = [], routes = [], isRunning = True\<rparr>
   \<and> use \<lparr>globalMiddlewares = [], routes = [], isRunning = True\<rparr> (passing ''A'')
     = Done \<lparr>globalMiddlewares = [passing ''A''], routes = [], isRunning = True\<rparr>"
  by (simp add: start_def route_def use_def)

end
